theory Spec2Isabelle
  imports Main "HOL-Library.Sublist"
begin

section \<open>Characters and strings\<close>

text \<open>
  Texts are lists of characters whose code points lie below 256.  On this range
  Python's \<^verbatim>\<open>str.lower\<close> moves the letters A to Z and the Latin-1 capitals
  (192 to 222 without the multiplication sign 215) up by 32 and keeps every other
  character, and \<^verbatim>\<open>\s\<close> in a text pattern accepts the code points
  9 to 13, 28 to 32, 133 and 160.
\<close>

definition lower_chr :: "char \<Rightarrow> char" where
  "lower_chr c =
     (let n = (of_char c :: nat) in
      if (65 \<le> n \<and> n \<le> 90) \<or> (192 \<le> n \<and> n \<le> 222 \<and> n \<noteq> 215)
      then char_of (n + 32) else c)"

definition lower :: "string \<Rightarrow> string" where
  "lower s = map lower_chr s"

definition isspace :: "char \<Rightarrow> bool" where
  "isspace c =
     (let n = (of_char c :: nat) in
      (9 \<le> n \<and> n \<le> 13) \<or> (28 \<le> n \<and> n \<le> 32) \<or> n = 133 \<or> n = 160)"

text \<open>\<^verbatim>\<open>needle in hay\<close>: the needle occurs as a contiguous piece of the hay.\<close>

fun contains :: "string \<Rightarrow> string \<Rightarrow> bool" where
  "contains needle [] = (needle = [])"
| "contains needle (x # t) = (take (length needle) (x # t) = needle \<or> contains needle t)"

text \<open>\<^verbatim>\<open>s.strip(chars)\<close>: drop the characters of \<open>chars\<close> from both ends.\<close>

definition strip :: "string \<Rightarrow> string \<Rightarrow> string" where
  "strip chars s =
     rev (dropWhile (\<lambda>c. c \<in> set chars) (rev (dropWhile (\<lambda>c. c \<in> set chars) s)))"

section \<open>The fragment of regular expressions used by the catalogue\<close>

text \<open>
  Every pattern of the program is a sequence of single-character atoms, each
  optionally followed by \<^verbatim>\<open>*\<close> or \<^verbatim>\<open>?\<close>.  An atom is a literal
  character (possibly escaped), the class \<^verbatim>\<open>\s\<close>, or a negated
  one-character set \<^verbatim>\<open>[^c]\<close>.
\<close>

datatype cls = Lit char | Space | Neg char

datatype item = One cls | Star cls | Opt cls

definition backslash :: char where
  "backslash = CHR 0x5C"

text \<open>
  A string literal of the logic cannot hold a backslash.  The patterns below are
  written with a percent sign where the source has a backslash; \<open>raw\<close> puts the
  backslash back, so that \<open>raw ''if%s*%(''\<close> is the Python literal
  \<^verbatim>\<open>r'if\s*\('\<close>.  No pattern of the source contains a percent sign.
\<close>

definition raw :: "string \<Rightarrow> string" where
  "raw s = map (\<lambda>c. if c = CHR ''%'' then backslash else c) s"

fun atom :: "string \<Rightarrow> (cls \<times> string) option" where
  "atom [] = None"
| "atom (c # r) =
     (if c = backslash then
        (case r of
           [] \<Rightarrow> None
         | d # r' \<Rightarrow> Some (if d = CHR ''s'' then Space else Lit d, r'))
      else if c = CHR ''['' then
        (case r of
           h # x # b # r' \<Rightarrow>
             if h = CHR ''^'' \<and> b = CHR '']'' then Some (Neg x, r') else None
         | _ \<Rightarrow> None)
      else Some (Lit c, r))"

lemma atom_shorter: "atom s = Some (a, r) \<Longrightarrow> length r < length s"
  by (cases s) (auto split: if_splits list.splits)

function compile :: "string \<Rightarrow> item list" where
  "compile s =
     (case atom s of
        None \<Rightarrow> []
      | Some (a, r) \<Rightarrow>
          (case r of
             [] \<Rightarrow> [One a]
           | q # r' \<Rightarrow>
               if q = CHR ''*'' then Star a # compile r'
               else if q = CHR ''?'' then Opt a # compile r'
               else One a # compile r))"
  by pat_completeness auto
termination
  by (relation "measure length") (auto dest: atom_shorter)

declare compile.simps [simp del]

text \<open>
  Matching one character.  All patterns are used with \<^verbatim>\<open>re.IGNORECASE\<close>:
  a literal matches a character with the same lower-case form.
\<close>

fun cmatch :: "cls \<Rightarrow> char \<Rightarrow> bool" where
  "cmatch (Lit c) x = (lower_chr x = lower_chr c)"
| "cmatch Space x = isspace x"
| "cmatch (Neg c) x = (lower_chr x \<noteq> lower_chr c)"

text \<open>
  The backtracking matcher of \<^verbatim>\<open>re\<close>, anchored at the start of the text.
  \<open>mt p s\<close> is the text left after the first match found, where a starred or
  optional atom first takes a character and gives it back only when the rest of
  the pattern fails (greedy repetition); \<open>None\<close> when there is no match.
\<close>

fun mt :: "item list \<Rightarrow> string \<Rightarrow> string option" where
  "mt [] s = Some s"
| "mt (One c # p) [] = None"
| "mt (One c # p) (x # s) = (if cmatch c x then mt p s else None)"
| "mt (Opt c # p) [] = mt p []"
| "mt (Opt c # p) (x # s) =
     (if cmatch c x then
        (case mt p s of Some r \<Rightarrow> Some r | None \<Rightarrow> mt p (x # s))
      else mt p (x # s))"
| "mt (Star c # p) [] = mt p []"
| "mt (Star c # p) (x # s) =
     (if cmatch c x then
        (case mt (Star c # p) s of Some r \<Rightarrow> Some r | None \<Rightarrow> mt p (x # s))
      else mt p (x # s))"

text \<open>\<^verbatim>\<open>re.search\<close>: is there a position of the text where the pattern matches?\<close>

fun search :: "item list \<Rightarrow> string \<Rightarrow> bool" where
  "search p [] = (mt p [] \<noteq> None)"
| "search p (x # t) = (mt p (x # t) \<noteq> None \<or> search p t)"

lemma mt_length: "mt p s = Some r \<Longrightarrow> length r \<le> length s"
  by (induction p s rule: mt.induct) (auto split: if_splits option.splits)

text \<open>
  \<^verbatim>\<open>re.sub\<close> with a literal replacement: scanning from the left, every match
  is replaced and the scan goes on behind it; a character where no match starts
  is copied.  An empty match is replaced and the next character copied.
\<close>

function sub :: "item list \<Rightarrow> string \<Rightarrow> string \<Rightarrow> string" where
  "sub p repl s =
     (case mt p s of
        Some r \<Rightarrow>
          if length r < length s then repl @ sub p repl r
          else (case s of [] \<Rightarrow> repl | x # t \<Rightarrow> repl @ x # sub p repl t)
      | None \<Rightarrow> (case s of [] \<Rightarrow> [] | x # t \<Rightarrow> x # sub p repl t))"
  by pat_completeness auto
termination
  by (relation "measure (\<lambda>(p, repl, s). length s)") auto

declare sub.simps [simp del]

section \<open>The document\<close>

text \<open>
  The parser is a collaborator outside the repository.  Of the tree it builds the
  program reads and writes only elements: their tag name, their attributes (a
  dictionary in insertion order) and, for a script, \<^verbatim>\<open>.string\<close>, the one
  text child if there is one.  The parser makes \<^verbatim>\<open>meta\<close> a void element and
  the content of a \<^verbatim>\<open>script\<close> one raw text, so that no element found by the
  program lies inside another one found by it.  A document is the list of its
  elements in document order; the position is the identity of the element
  object, and a decomposed element leaves \<open>None\<close> at its position.
\<close>

record element =
  name :: string
  attrs :: "(string \<times> string) list"
  string :: "string option"

type_synonym soup = "element option list"

text \<open>\<^verbatim>\<open>soup.find_all(nm)\<close>: the elements of that name, in document order.\<close>

definition find_all :: "string \<Rightarrow> soup \<Rightarrow> nat list" where
  "find_all nm soup =
     filter (\<lambda>i. case soup ! i of Some e \<Rightarrow> name e = nm | None \<Rightarrow> False)
       [0..<length soup]"

text \<open>\<^verbatim>\<open>tag.get(key, default)\<close>\<close>

definition get :: "element \<Rightarrow> string \<Rightarrow> string \<Rightarrow> string" where
  "get e k d = (case map_of (attrs e) k of Some v \<Rightarrow> v | None \<Rightarrow> d)"

text \<open>\<^verbatim>\<open>tag[key] = value\<close>: an existing key keeps its place, a new one goes last.\<close>

fun set_item :: "string \<Rightarrow> string \<Rightarrow> (string \<times> string) list \<Rightarrow> (string \<times> string) list" where
  "set_item k v [] = [(k, v)]"
| "set_item k v (p # ps) = (if fst p = k then (k, v) # ps else p # set_item k v ps)"

text \<open>
  A loop \<^verbatim>\<open>for e in found: ...\<close> whose body reads and changes only the element
  \<open>e\<close> and appends to the modification list.  The body gives the element as it is
  afterwards (\<open>None\<close> when it was decomposed) and the entries it appended.
\<close>

fun for_each ::
  "(element \<Rightarrow> element option \<times> string list) \<Rightarrow> nat list \<Rightarrow> soup \<Rightarrow> string list
     \<Rightarrow> soup \<times> string list" where
  "for_each body [] soup mods = (soup, mods)"
| "for_each body (i # is) soup mods =
     (case soup ! i of
        None \<Rightarrow> for_each body is soup mods
      | Some e \<Rightarrow>
          (case body e of (e', new) \<Rightarrow> for_each body is (soup[i := e']) (mods @ new)))"

text \<open>
  What such a loop does to one position of the document and which entries that
  position contributes: only an element of the searched name is handed to the body.
\<close>

definition on_element ::
  "string \<Rightarrow> (element \<Rightarrow> element option \<times> string list) \<Rightarrow> element option \<Rightarrow> element option" where
  "on_element nm body x =
     (case x of Some e \<Rightarrow> if name e = nm then fst (body e) else Some e | None \<Rightarrow> None)"

definition entries_of ::
  "string \<Rightarrow> (element \<Rightarrow> element option \<times> string list) \<Rightarrow> element option \<Rightarrow> string list" where
  "entries_of nm body x =
     (case x of Some e \<Rightarrow> if name e = nm then snd (body e) else [] | None \<Rightarrow> [])"

section \<open>Detector\<close>

definition patterns :: "string list" where
  "patterns = map raw
     [''if%s*%(%s*window%s*!==?%s*window%.top%s*%)'',
      ''if%s*%(%s*self%s*!==?%s*top%s*%)'',
      ''if%s*%(%s*parent%s*!==?%s*window%s*%)'',
      ''window%.top%.location%s*=%s*window%.location'',
      ''parent%.location%s*=%s*self%.location'',
      ''top%.location%s*=%s*location'',
      ''window%.top%.location%.href%s*=%s*window%.location%.href'',
      ''if%s*%(%s*top%s*!==?%s*self%s*%)'',
      ''if%s*%(%s*window%.frameElement%s*%)'',
      ''if%s*%(%s*window%.parent%s*!==?%s*window%s*%)'',
      ''top%.location%.replace%('',
      ''window%.top%.location%.replace%('',
      ''break%s*out%s*of%s*frame'',
      ''framekiller'',
      ''framebreaker'']"

definition detect_frame_busting_patterns :: "string \<Rightarrow> string list" where
  "detect_frame_busting_patterns html_content =
     filter (\<lambda>pattern. search (compile pattern) html_content) patterns"

section \<open>Script Rewriter\<close>

definition marker :: string where
  "marker = ''// Frame busting code removed''"

definition frame_busting_patterns :: "(string \<times> string) list" where
  "frame_busting_patterns = map (\<lambda>p. (raw p, marker))
     [''if%s*%(%s*window%s*!==?%s*window%.top%s*%)[^}]*}'',
      ''if%s*%(%s*self%s*!==?%s*top%s*%)[^}]*}'',
      ''if%s*%(%s*parent%s*!==?%s*window%s*%)[^}]*}'',
      ''window%.top%.location%s*=%s*[^;]*;'',
      ''parent%.location%s*=%s*[^;]*;'',
      ''top%.location%s*=%s*[^;]*;'',
      ''if%s*%(%s*top%s*!==?%s*self%s*%)[^}]*}'',
      ''if%s*%(%s*window%.frameElement%s*%)[^}]*}'',
      ''if%s*%(%s*window%.parent%s*!==?%s*window%s*%)[^}]*}'',
      ''top%.location%.replace%([^)]*%);?'',
      ''window%.top%.location%.replace%([^)]*%);?'']"

definition entry :: "string \<Rightarrow> string" where
  "entry pattern = ''Removed frame-busting pattern: '' @ pattern"

text \<open>The inner loop over the rewrite signatures, on the text of one script.\<close>

fun rewrite_loop :: "(string \<times> string) list \<Rightarrow> string \<Rightarrow> string list \<Rightarrow> string \<times> string list" where
  "rewrite_loop [] modified_content mods = (modified_content, mods)"
| "rewrite_loop ((pattern, replacement) # ps) modified_content mods =
     (if search (compile pattern) modified_content
      then rewrite_loop ps (sub (compile pattern) replacement modified_content)
             (mods @ [entry pattern])
      else rewrite_loop ps modified_content mods)"

text \<open>
  The body of the loop over the script elements.  \<^verbatim>\<open>if script.string:\<close> skips a
  script without text child and one whose text is empty.
\<close>

definition sanitize_script :: "element \<Rightarrow> element option \<times> string list" where
  "sanitize_script script =
     (case string script of
        None \<Rightarrow> (Some script, [])
      | Some original_content \<Rightarrow>
          if original_content = [] then (Some script, [])
          else
            (case rewrite_loop frame_busting_patterns original_content [] of
               (modified_content, new) \<Rightarrow>
                 (if modified_content \<noteq> original_content
                  then Some (script\<lparr>string := Some modified_content\<rparr>)
                  else Some script, new)))"

definition sanitize_javascript :: "soup \<Rightarrow> soup \<times> string list" where
  "sanitize_javascript soup = for_each sanitize_script (find_all ''script'' soup) soup []"

section \<open>Meta-Tag Normalizer\<close>

text \<open>
  The second substitution is called without \<^verbatim>\<open>re.IGNORECASE\<close>; its pattern
  has no letter, so the flag makes no difference.
\<close>

definition clean_meta :: "element \<Rightarrow> element option \<times> string list" where
  "clean_meta meta =
     (if lower (get meta ''http-equiv'' []) = ''x-frame-options''
      then (None, [''Removed X-Frame-Options meta tag''])
      else if lower (get meta ''http-equiv'' []) = ''content-security-policy'' then
        (let content = get meta ''content'' [] in
         if contains ''frame-ancestors'' (lower content) then
           (let new_content = sub (compile (raw ''frame-ancestors[^;]*;?'')) [] content;
                new_content = sub (compile (raw '';%s*;'')) '';'' new_content;
                new_content = strip ''; '' new_content
            in if new_content \<noteq> []
               then (Some (meta\<lparr>attrs := set_item ''content'' new_content (attrs meta)\<rparr>),
                     [''Modified CSP meta tag to remove frame-ancestors''])
               else (None, [''Removed CSP meta tag'']))
         else (Some meta, []))
      else (Some meta, []))"

definition clean_meta_tags :: "soup \<Rightarrow> soup \<times> string list" where
  "clean_meta_tags soup = for_each clean_meta (find_all ''meta'' soup) soup []"

section \<open>Compatibility Assessor\<close>

text \<open>
  The loop over the meta elements; \<open>True\<close> when it ends without having returned
  \<^verbatim>\<open>False\<close>.
\<close>

fun meta_check :: "element list \<Rightarrow> bool" where
  "meta_check [] = True"
| "meta_check (meta # metas) =
     (if lower (get meta ''http-equiv'' []) = ''x-frame-options'' then False
      else if lower (get meta ''http-equiv'' []) = ''content-security-policy''
              \<and> contains ''frame-ancestors'' (lower (get meta ''content'' []))
              \<and> contains (CHR 0x27 # ''none'' @ [CHR 0x27]) (lower (get meta ''content'' []))
      then False
      else meta_check metas)"

text \<open>The elements themselves, for a loop that only reads them.\<close>

definition elements :: "string \<Rightarrow> soup \<Rightarrow> element list" where
  "elements nm soup = map (\<lambda>i. the (soup ! i)) (find_all nm soup)"

definition assess_iframe_compatibility :: "(string \<Rightarrow> soup) \<Rightarrow> string \<Rightarrow> bool" where
  "assess_iframe_compatibility parse html_content =
     (let remaining_patterns = detect_frame_busting_patterns html_content;
          soup = parse html_content
      in if meta_check (elements ''meta'' soup) then length remaining_patterns = 0
         else False)"

section \<open>Orchestrator\<close>

text \<open>
  The fetch, the parser, the serialiser and the output are collaborators and are
  parameters.  The fetch stands for the statements from the creation of the
  client to \<^verbatim>\<open>response.text\<close>: the request, which follows redirects and has
  a timeout, and \<^verbatim>\<open>raise_for_status\<close>.  Each collaborator returns or raises.
  Of a raised exception the program
  uses two things: whether it is an instance of \<^verbatim>\<open>Exception\<close>, which decides
  whether \<^verbatim>\<open>except Exception\<close> catches it (a cancellation, a keyboard
  interrupt and \<^verbatim>\<open>SystemExit\<close> are not), and \<^verbatim>\<open>str(e)\<close>.
\<close>

record exc =
  is_Exception :: bool
  str :: string

text \<open>
  \<^verbatim>\<open>assess_iframe_compatibility\<close> called with a parser that may raise: the
  detector runs first and cannot raise, then the parser is called, and its
  exception leaves the function.
\<close>

definition assess_raising :: "(string \<Rightarrow> exc + soup) \<Rightarrow> string \<Rightarrow> exc + bool" where
  "assess_raising parse html_content =
     (case parse html_content of
        Inl e \<Rightarrow> Inl e
      | Inr soup \<Rightarrow> Inr (assess_iframe_compatibility (\<lambda>s. soup) html_content))"

record result =
  url :: string
  error :: "string option"
  html_content :: "string option"
  iframe_compatible :: bool
  original_blocked :: bool
  modifications_made :: "string list"
  original_frame_busting_patterns :: "string list"

text \<open>
  How a run ends: \<^verbatim>\<open>main\<close> returns, \<^verbatim>\<open>Actor.exit()\<close> ends the process
  (it raises \<^verbatim>\<open>SystemExit\<close>), or an exception leaves \<^verbatim>\<open>main\<close>.  A run is
  the list of the records that were pushed to the output, and its ending.
\<close>

datatype ending = Returned | Exited | Escaped exc

record run =
  pushed :: "result list"
  ending :: ending

text \<open>
  The statements of the \<^verbatim>\<open>try\<close> block up to the assembled record: the first
  exception raised ends the block.
\<close>

definition try_block ::
  "(string \<Rightarrow> exc + string) \<Rightarrow> (string \<Rightarrow> exc + soup) \<Rightarrow> (soup \<Rightarrow> exc + string) \<Rightarrow> string
     \<Rightarrow> exc + result" where
  "try_block fetch parse serialize u =
     (case fetch u of
        Inl e \<Rightarrow> Inl e
      | Inr original_html \<Rightarrow>
     (case assess_raising parse original_html of
        Inl e \<Rightarrow> Inl e
      | Inr original_verdict \<Rightarrow>
     (case parse original_html of
        Inl e \<Rightarrow> Inl e
      | Inr soup \<Rightarrow>
          (let original_blocked = \<not> original_verdict;
               (soup, js_modifications) = sanitize_javascript soup;
               (soup, meta_modifications) = clean_meta_tags soup;
               all_modifications = js_modifications @ meta_modifications
           in
     (case serialize soup of
        Inl e \<Rightarrow> Inl e
      | Inr processed_html \<Rightarrow>
     (case assess_raising parse processed_html of
        Inl e \<Rightarrow> Inl e
      | Inr final_verdict \<Rightarrow>
          Inr \<lparr>url = u, error = None, html_content = Some processed_html,
               iframe_compatible = final_verdict,
               original_blocked = original_blocked,
               modifications_made = all_modifications,
               original_frame_busting_patterns =
                 detect_frame_busting_patterns original_html\<rparr>))))))"

definition error_result :: "string \<Rightarrow> exc \<Rightarrow> result" where
  "error_result u e =
     \<lparr>url = u, error = Some (str e), html_content = None,
      iframe_compatible = False, original_blocked = True,
      modifications_made = [], original_frame_busting_patterns = []\<rparr>"

text \<open>
  The handler \<^verbatim>\<open>except Exception as e\<close>.  An exception that is no instance of
  \<^verbatim>\<open>Exception\<close> passes it.  The push of the error record is not guarded: an
  exception it raises leaves \<^verbatim>\<open>main\<close>.
\<close>

definition except_handler :: "(result \<Rightarrow> exc option) \<Rightarrow> string \<Rightarrow> exc \<Rightarrow> run" where
  "except_handler push_data u e =
     (if is_Exception e then
        (case push_data (error_result u e) of
           None \<Rightarrow> \<lparr>pushed = [error_result u e], ending = Returned\<rparr>
         | Some e' \<Rightarrow> \<lparr>pushed = [], ending = Escaped e'\<rparr>)
      else \<lparr>pushed = [], ending = Escaped e\<rparr>)"

text \<open>
  \<^verbatim>\<open>main\<close>, from the url of the input on.  \<open>push_data r\<close> is \<open>None\<close> when the
  output takes the record \<open>r\<close> and the exception it raises otherwise.  The push of
  the result lies inside the \<^verbatim>\<open>try\<close> block, so that its exception goes to the
  handler as well.
\<close>

definition main ::
  "(string \<Rightarrow> exc + string) \<Rightarrow> (string \<Rightarrow> exc + soup) \<Rightarrow> (soup \<Rightarrow> exc + string)
     \<Rightarrow> (result \<Rightarrow> exc option) \<Rightarrow> string option \<Rightarrow> run" where
  "main fetch parse serialize push_data actor_url =
     (case actor_url of
        None \<Rightarrow> \<lparr>pushed = [], ending = Exited\<rparr>
      | Some u \<Rightarrow>
          if u = [] then \<lparr>pushed = [], ending = Exited\<rparr>
          else
            (case try_block fetch parse serialize u of
               Inl e \<Rightarrow> except_handler push_data u e
             | Inr r \<Rightarrow>
                 (case push_data r of
                    None \<Rightarrow> \<lparr>pushed = [r], ending = Returned\<rparr>
                  | Some e \<Rightarrow> except_handler push_data u e)))"

section \<open>The two substitutions of the normaliser, said without patterns\<close>







text \<open>A meta element as in the scenarios of the normaliser, with the given content.\<close>

definition csp_meta :: "string \<Rightarrow> element" where
  "csp_meta content =
     \<lparr>name = ''meta'',
      attrs = [(''http-equiv'', ''Content-Security-Policy''), (''content'', content)],
      string = None\<rparr>"

section \<open>The rewrite signatures that replace an assignment\<close>

text \<open>
  The fourth, fifth and sixth rewrite signature: an assignment to the location of
  the top or parent window, whatever is assigned.
\<close>

definition reassignments :: "string list" where
  "reassignments = map raw
     [''window%.top%.location%s*=%s*[^;]*;'',
      ''parent%.location%s*=%s*[^;]*;'',
      ''top%.location%s*=%s*[^;]*;'']"

section \<open>What a pattern accepts\<close>

text \<open>
  The texts a pattern can match as a whole, without regard to the order in which
  the matcher tries them.
\<close>

inductive accepts :: "item list \<Rightarrow> string \<Rightarrow> bool" where
  acc_Nil: "accepts [] []"
| acc_One: "cmatch c x \<Longrightarrow> accepts p a \<Longrightarrow> accepts (One c # p) (x # a)"
| acc_Opt_skip: "accepts p a \<Longrightarrow> accepts (Opt c # p) a"
| acc_Opt_take: "cmatch c x \<Longrightarrow> accepts p a \<Longrightarrow> accepts (Opt c # p) (x # a)"
| acc_Star_skip: "accepts p a \<Longrightarrow> accepts (Star c # p) a"
| acc_Star_take: "cmatch c x \<Longrightarrow> accepts (Star c # p) a \<Longrightarrow> accepts (Star c # p) (x # a)"

text \<open>
  A rewrite signature is \<open>safe\<close> when it ends in \<^verbatim>\<open>[^c]*c\<close>, possibly followed by
  one optional character, the closing character \<open>c\<close> does not occur in the
  marker, no atom before that ending matches a slash, and the signature cannot
  match at any position inside the marker.  \<open>blocked p w\<close> says that the
  characters of \<open>w\<close> alone make \<open>p\<close> fail on every text that starts with \<open>w\<close>.
\<close>

fun cls_of :: "item \<Rightarrow> cls" where
  "cls_of (One c) = c"
| "cls_of (Star c) = c"
| "cls_of (Opt c) = c"

definition slash_free :: "item list \<Rightarrow> bool" where
  "slash_free h = list_all (\<lambda>i. \<not> cmatch (cls_of i) CHR ''/'') h"

fun blocked :: "item list \<Rightarrow> string \<Rightarrow> bool" where
  "blocked [] w = False"
| "blocked (One c # p) [] = False"
| "blocked (One c # p) (x # w) = (\<not> cmatch c x \<or> blocked p w)"
| "blocked (Opt c # p) [] = False"
| "blocked (Opt c # p) (x # w) = ((\<not> cmatch c x \<or> blocked p w) \<and> blocked p (x # w))"
| "blocked (Star c # p) [] = False"
| "blocked (Star c # p) (x # w) =
     ((\<not> cmatch c x \<or> blocked (Star c # p) w) \<and> blocked p (x # w))"

definition closing :: "item list \<Rightarrow> (item list \<times> char) option" where
  "closing p =
     (case rev p of
        One (Lit d) # Star (Neg c) # h \<Rightarrow> if c = d then Some (rev h, c) else None
      | Opt e # One (Lit d) # Star (Neg c) # h \<Rightarrow> if c = d then Some (rev h, c) else None
      | _ \<Rightarrow> None)"

definition safe :: "item list \<Rightarrow> bool" where
  "safe p =
     (case closing p of
        None \<Rightarrow> False
      | Some (h, c) \<Rightarrow>
          slash_free h \<and> list_all (\<lambda>y. lower_chr y \<noteq> lower_chr c) marker
          \<and> list_all (\<lambda>n. blocked p (drop n marker)) [0..<length marker])"

text \<open>
  How a substitution changes a text: a character is copied, where the predicate
  \<open>P\<close> holds of the text from that character on, or a piece of the text is
  replaced by the marker.
\<close>

inductive rw :: "(string \<Rightarrow> bool) \<Rightarrow> string \<Rightarrow> string \<Rightarrow> bool" for P where
  rw_Nil: "rw P [] []"
| rw_copy: "P (x # s) \<Longrightarrow> rw P s t \<Longrightarrow> rw P (x # s) (x # t)"
| rw_repl: "rw P s t \<Longrightarrow> rw P (d @ s) (marker @ t)"

section \<open>Loops over the document\<close>

lemma on_element_simps [simp]:
  "on_element nm body None = None"
  "on_element nm body (Some e) = (if name e = nm then fst (body e) else Some e)"
  by (simp_all add: on_element_def)

lemma entries_of_simps [simp]:
  "entries_of nm body None = []"
  "entries_of nm body (Some e) = (if name e = nm then snd (body e) else [])"
  by (simp_all add: entries_of_def)

lemma for_each_append:
  "for_each body (is @ js) soup mods =
     (case for_each body is soup mods of (s, m) \<Rightarrow> for_each body js s m)"
  by (induction "is" arbitrary: soup mods) (auto split: option.splits prod.splits)

lemma for_each_tail:
  "\<forall>i\<in>set is. i < length xs \<Longrightarrow>
   for_each body is (xs @ ys) mods =
     (fst (for_each body is xs mods) @ ys, snd (for_each body is xs mods))"
proof (induction "is" arbitrary: xs mods)
  case Nil
  then show ?case by simp
next
  case (Cons i "is")
  then have i: "i < length xs" and rest: "\<forall>j\<in>set is. j < length xs" by auto
  show ?case
  proof (cases "xs ! i")
    case None
    with i rest Cons.IH show ?thesis by (simp add: nth_append)
  next
    case (Some e)
    obtain e' new where b: "body e = (e', new)" by (cases "body e")
    have "\<forall>j\<in>set is. j < length (xs[i := e'])" using rest by simp
    from Cons.IH [OF this] Some b i show ?thesis
      by (simp add: nth_append list_update_append)
  qed
qed

lemma find_all_snoc:
  "find_all nm (xs @ [x]) =
     find_all nm xs @
     (if (case x of Some e \<Rightarrow> name e = nm | None \<Rightarrow> False) then [length xs] else [])"
proof -
  have "filter (\<lambda>i. case (xs @ [x]) ! i of Some e \<Rightarrow> name e = nm | None \<Rightarrow> False) [0..<length xs]
      = filter (\<lambda>i. case xs ! i of Some e \<Rightarrow> name e = nm | None \<Rightarrow> False) [0..<length xs]"
    by (rule filter_cong) (auto simp: nth_append)
  then show ?thesis by (simp add: find_all_def)
qed

lemma find_all_bound: "\<forall>i\<in>set (find_all nm xs). i < length xs"
  by (simp add: find_all_def)

text \<open>
  The loop over the elements found beforehand treats every position of the
  document on its own, and appends the entries in document order.
\<close>

lemma for_each_find_all:
  "for_each body (find_all nm soup) soup mods =
     (map (on_element nm body) soup, mods @ concat (map (entries_of nm body) soup))"
proof (induction soup arbitrary: mods rule: rev_induct)
  case Nil
  then show ?case by (simp add: find_all_def)
next
  case (snoc x xs)
  have pre: "for_each body (find_all nm xs) (xs @ [x]) mods =
      (map (on_element nm body) xs @ [x], mods @ concat (map (entries_of nm body) xs))"
    using for_each_tail [OF find_all_bound, of body nm xs "[x]" mods] snoc.IH [of mods] by simp
  show ?case
  proof (cases x)
    case None
    with pre show ?thesis by (simp add: find_all_snoc)
  next
    case (Some e)
    show ?thesis
    proof (cases "name e = nm")
      case False
      with Some pre show ?thesis by (simp add: find_all_snoc)
    next
      case True
      obtain e' new where b: "body e = (e', new)" by (cases "body e")
      have nth: "(map (on_element nm body) xs @ [x]) ! length xs = x"
        by (simp add: nth_append)
      have upd: "(map (on_element nm body) xs @ [x])[length xs := e'] =
          map (on_element nm body) xs @ [e']"
        by (simp add: list_update_append)
      from Some True pre b nth upd show ?thesis
        by (simp add: find_all_snoc for_each_append)
    qed
  qed
qed

lemma sanitize_javascript_eq:
  "sanitize_javascript soup =
     (map (on_element ''script'' sanitize_script) soup,
      concat (map (entries_of ''script'' sanitize_script) soup))"
  by (simp add: sanitize_javascript_def for_each_find_all)

lemma clean_meta_tags_eq:
  "clean_meta_tags soup =
     (map (on_element ''meta'' clean_meta) soup,
      concat (map (entries_of ''meta'' clean_meta) soup))"
  by (simp add: clean_meta_tags_def for_each_find_all)

lemma elements_Nil [simp]: "elements nm [] = []"
  by (simp add: elements_def find_all_def)

section \<open>Compatibility Assessor\<close>

lemma meta_check_iff:
  "meta_check ms \<longleftrightarrow>
     (\<forall>m\<in>set ms. lower (get m ''http-equiv'' []) \<noteq> ''x-frame-options'') \<and>
     (\<forall>m\<in>set ms. \<not> (lower (get m ''http-equiv'' []) = ''content-security-policy''
          \<and> contains ''frame-ancestors'' (lower (get m ''content'' []))
          \<and> contains (CHR 0x27 # ''none'' @ [CHR 0x27]) (lower (get m ''content'' []))))"
  by (induction ms) auto

text \<open>
  C1.  For every text, the assessor answers true exactly when the detector finds
  nothing in the text, no meta element of the parsed text has the http-equiv
  x-frame-options (compared in lower case), and no meta element has the http-equiv
  content-security-policy with a content that holds, in lower case, both
  frame-ancestors and 'none'.  So the answer is false whenever the detector finds
  something.
\<close>

theorem assess_iff:
  "assess_iframe_compatibility parse txt \<longleftrightarrow>
     detect_frame_busting_patterns txt = [] \<and>
     (\<forall>m\<in>set (elements ''meta'' (parse txt)).
         lower (get m ''http-equiv'' []) \<noteq> ''x-frame-options'') \<and>
     (\<forall>m\<in>set (elements ''meta'' (parse txt)).
         \<not> (lower (get m ''http-equiv'' []) = ''content-security-policy''
          \<and> contains ''frame-ancestors'' (lower (get m ''content'' []))
          \<and> contains (CHR 0x27 # ''none'' @ [CHR 0x27]) (lower (get m ''content'' []))))"
  unfolding assess_iframe_compatibility_def Let_def meta_check_iff by auto

lemma detect_hello: "detect_frame_busting_patterns ''hello'' = []"
  by code_simp

lemma elements_one_meta:
  "elements ''meta'' [Some \<lparr>name = ''meta'', attrs = a, string = None\<rparr>] =
     [\<lparr>name = ''meta'', attrs = a, string = None\<rparr>]"
  by (simp add: elements_def find_all_def)

theorem assess_iff_witness:
  "assess_iframe_compatibility
     (\<lambda>s. [Some \<lparr>name = ''meta'', attrs = [(''charset'', ''utf-8'')], string = None\<rparr>])
     ''hello''"
  using assess_iff [of "\<lambda>s. [Some \<lparr>name = ''meta'', attrs = [(''charset'', ''utf-8'')], string = None\<rparr>]" "''hello''"]
  by (simp add: detect_hello elements_one_meta get_def lower_def)

text \<open>
  C10.  On the empty text the detector finds nothing, and the assessor answers
  true, given that the parser finds no meta element in the empty text.
\<close>

theorem empty_text_compatible:
  "detect_frame_busting_patterns [] = [] \<and>
   (elements ''meta'' (parse []) = [] \<longrightarrow> assess_iframe_compatibility parse [])"
proof -
  have d: "detect_frame_busting_patterns [] = []" by code_simp
  then show ?thesis by (simp add: assess_iframe_compatibility_def)
qed

theorem empty_text_compatible_witness:
  "elements ''meta'' ((\<lambda>s. []) ([] :: string)) = [] \<and>
   detect_frame_busting_patterns [] = [] \<and> assess_iframe_compatibility (\<lambda>s. []) []"
  using empty_text_compatible [of "\<lambda>s. []"] by simp

section \<open>Orchestrator\<close>

lemma try_block_fetch_raises: "fetch u = Inl e \<Longrightarrow> try_block fetch parse serialize u = Inl e"
  by (simp add: try_block_def)

text \<open>
  C8, as the program has it.  When the fetch raises an exception that is an
  instance of \<^verbatim>\<open>Exception\<close> (a network failure, a timeout, a status that is not
  2xx), the program builds the record whose error is the text of the exception,
  whatever that text is, with the page absent, iframe_compatible false,
  original_blocked true and both lists empty, and pushes it.  When the push
  returns, this is the one record of the run and \<^verbatim>\<open>main\<close> returns.  When the
  push raises, the run has no record and that exception leaves \<^verbatim>\<open>main\<close>.
\<close>

theorem fetch_error_record:
  "u \<noteq> [] \<Longrightarrow> fetch u = Inl e \<Longrightarrow> is_Exception e \<Longrightarrow>
   main fetch parse serialize push_data (Some u) =
     (case push_data \<lparr>url = u, error = Some (str e), html_content = None,
                       iframe_compatible = False, original_blocked = True,
                       modifications_made = [], original_frame_busting_patterns = []\<rparr> of
        None \<Rightarrow>
          \<lparr>pushed = [\<lparr>url = u, error = Some (str e), html_content = None,
                       iframe_compatible = False, original_blocked = True,
                       modifications_made = [], original_frame_busting_patterns = []\<rparr>],
           ending = Returned\<rparr>
      | Some e' \<Rightarrow> \<lparr>pushed = [], ending = Escaped e'\<rparr>)"
  by (simp add: main_def try_block_fetch_raises except_handler_def error_result_def
      split: option.splits)

theorem fetch_error_record_witness:
  "main (\<lambda>u. Inl \<lparr>is_Exception = True, str = ''timed out''\<rparr>) (\<lambda>s. Inr []) (\<lambda>d. Inr [])
     (\<lambda>r. None) (Some ''http://example.com'') =
     \<lparr>pushed = [\<lparr>url = ''http://example.com'', error = Some ''timed out'', html_content = None,
                  iframe_compatible = False, original_blocked = True, modifications_made = [],
                  original_frame_busting_patterns = []\<rparr>],
      ending = Returned\<rparr>"
  using fetch_error_record [of "''http://example.com''"
      "\<lambda>u. Inl \<lparr>is_Exception = True, str = ''timed out''\<rparr>"
      "\<lparr>is_Exception = True, str = ''timed out''\<rparr>" "\<lambda>s. Inr []" "\<lambda>d. Inr []" "\<lambda>r. None"]
  by simp

text \<open>
  C8, as stated, asks for a non-empty error message and lets no exception leave
  the program.  A timeout whose text is empty gives a record whose error is the
  empty text.
\<close>

theorem fetch_error_empty_message:
  "main (\<lambda>u. Inl \<lparr>is_Exception = True, str = []\<rparr>) (\<lambda>s. Inr []) (\<lambda>d. Inr [])
     (\<lambda>r. None) (Some ''http://example.com'') =
     \<lparr>pushed = [\<lparr>url = ''http://example.com'', error = Some [], html_content = None,
                  iframe_compatible = False, original_blocked = True, modifications_made = [],
                  original_frame_busting_patterns = []\<rparr>],
      ending = Returned\<rparr>"
  by (simp add: main_def try_block_def except_handler_def error_result_def)

text \<open>
  And when the output refuses the error record, the exception of the push leaves
  the program, although the fetch had raised an ordinary timeout.
\<close>

lemma fetch_error_push_raises:
  "main (\<lambda>u. Inl \<lparr>is_Exception = True, str = ''timed out''\<rparr>) (\<lambda>s. Inr []) (\<lambda>d. Inr [])
     (\<lambda>r. Some \<lparr>is_Exception = True, str = ''storage unavailable''\<rparr>)
     (Some ''http://example.com'') =
     \<lparr>pushed = [], ending = Escaped \<lparr>is_Exception = True, str = ''storage unavailable''\<rparr>\<rparr>"
  by (simp add: main_def try_block_def except_handler_def error_result_def)

text \<open>
  An exception that is no instance of \<^verbatim>\<open>Exception\<close>, such as a cancellation,
  is not caught: the run has no record.
\<close>

lemma base_exception_escapes:
  "u \<noteq> [] \<Longrightarrow> fetch u = Inl e \<Longrightarrow> \<not> is_Exception e \<Longrightarrow>
   main fetch parse serialize push_data (Some u) = \<lparr>pushed = [], ending = Escaped e\<rparr>"
  by (simp add: main_def try_block_fetch_raises except_handler_def)

text \<open>
  An exception of the parser or of the serialiser inside the \<^verbatim>\<open>try\<close> block
  goes the same way as one of the fetch.
\<close>

lemma parse_error_record:
  "u \<noteq> [] \<Longrightarrow> fetch u = Inr h \<Longrightarrow> parse h = Inl e \<Longrightarrow>
   main fetch parse serialize push_data (Some u) = except_handler push_data u e"
  by (simp add: main_def try_block_def assess_raising_def)

section \<open>Matching\<close>

lemma mt_append_D: "mt (p @ q) s \<noteq> None \<Longrightarrow> mt p s \<noteq> None"
  by (induction p s rule: mt.induct) (auto split: if_splits option.splits)

lemma search_append_D: "search (p @ q) s \<Longrightarrow> search p s"
proof (induction s)
  case Nil
  then show ?case using mt_append_D [of p q "[]"] by simp
next
  case (Cons x s)
  then show ?case using mt_append_D [of p q "x # s"] by (simp del: mt.simps) blast
qed

lemma search_prefix:
  "take (length d) p = d \<Longrightarrow> search p s \<Longrightarrow> search d s"
  using search_append_D [of d "drop (length d) p" s] by (metis append_take_drop_id)

lemma mt_sound: "mt p s = Some r \<Longrightarrow> \<exists>a. s = a @ r \<and> accepts p a"
proof (induction p s arbitrary: r rule: mt.induct)
  case (1 s)
  then show ?case by (auto intro: accepts.intros)
next
  case (2 c p)
  then show ?case by simp
next
  case (3 c p x s)
  then show ?case by (fastforce split: if_splits intro: accepts.intros)
next
  case (4 c p)
  then show ?case by (fastforce intro: accepts.intros)
next
  case (5 c p x s)
  show ?case
  proof (cases "cmatch c x")
    case False
    with 5 show ?thesis by (fastforce intro: accepts.intros)
  next
    case True
    show ?thesis
    proof (cases "mt p s")
      case None
      with True 5 show ?thesis by (fastforce intro: accepts.intros)
    next
      case (Some r')
      with True 5(4) have "r' = r" by simp
      with 5(1) [OF True] Some obtain a where "s = a @ r" "accepts p a" by blast
      with True have "x # s = (x # a) @ r \<and> accepts (Opt c # p) (x # a)"
        by (auto intro: accepts.intros)
      then show ?thesis by blast
    qed
  qed
next
  case (6 c p)
  then show ?case by (fastforce intro: accepts.intros)
next
  case (7 c p x s)
  show ?case
  proof (cases "cmatch c x")
    case False
    with 7 show ?thesis by (fastforce intro: accepts.intros)
  next
    case True
    show ?thesis
    proof (cases "mt (Star c # p) s")
      case None
      with True 7 show ?thesis by (fastforce intro: accepts.intros)
    next
      case (Some r')
      with True 7(4) have "r' = r" by simp
      with 7(1) [OF True] Some obtain a where "s = a @ r" "accepts (Star c # p) a" by blast
      with True have "x # s = (x # a) @ r \<and> accepts (Star c # p) (x # a)"
        by (auto intro: accepts.intros)
      then show ?thesis by blast
    qed
  qed
qed

lemma mt_Opt_skip: "mt p s \<noteq> None \<Longrightarrow> mt (Opt c # p) s \<noteq> None"
  by (cases s) (auto split: option.splits)

lemma mt_Star_skip: "mt p s \<noteq> None \<Longrightarrow> mt (Star c # p) s \<noteq> None"
  by (cases s) (auto split: option.splits)

lemma mt_complete: "accepts p a \<Longrightarrow> mt p (a @ b) \<noteq> None"
proof (induction rule: accepts.induct)
  case acc_Nil
  show ?case by simp
next
  case (acc_One c x p a)
  then show ?case by simp
next
  case (acc_Opt_skip p a c)
  from acc_Opt_skip(2) show ?case by (rule mt_Opt_skip)
next
  case (acc_Opt_take c x p a)
  then show ?case by (auto split: option.splits)
next
  case (acc_Star_skip p a c)
  from acc_Star_skip(2) show ?case by (rule mt_Star_skip)
next
  case (acc_Star_take c x p a)
  then show ?case by (auto split: option.splits)
qed

lemma accepts_append_I:
  "accepts p a \<Longrightarrow> accepts q b \<Longrightarrow> accepts (p @ q) (a @ b)"
  by (induction rule: accepts.induct) (auto intro: accepts.intros)

lemma accepts_append_D:
  "accepts pq a \<Longrightarrow> pq = p @ q \<Longrightarrow> \<exists>a1 a2. a = a1 @ a2 \<and> accepts p a1 \<and> accepts q a2"
proof (induction arbitrary: p rule: accepts.induct)
  case acc_Nil
  then show ?case by (auto intro: accepts.intros)
next
  case (acc_One c x p' a)
  show ?case
  proof (cases p)
    case Nil
    with acc_One have "accepts q (x # a)" by (auto intro: accepts.intros)
    with Nil show ?thesis by (auto intro: accepts.intros)
  next
    case (Cons i p'')
    with acc_One(4) have i: "i = One c" and p': "p' = p'' @ q" by auto
    from acc_One(3) [OF p'] obtain a1 a2 where "a = a1 @ a2" "accepts p'' a1" "accepts q a2"
      by blast
    with acc_One(1) Cons i have "x # a = (x # a1) @ a2 \<and> accepts p (x # a1) \<and> accepts q a2"
      by (auto intro: accepts.intros)
    then show ?thesis by blast
  qed
next
  case (acc_Opt_skip p' a c)
  show ?case
  proof (cases p)
    case Nil
    with acc_Opt_skip have "accepts q a" by (auto intro: accepts.intros)
    with Nil show ?thesis by (auto intro: accepts.intros)
  next
    case (Cons i p'')
    with acc_Opt_skip(3) have i: "i = Opt c" and p': "p' = p'' @ q" by auto
    from acc_Opt_skip(2) [OF p'] obtain a1 a2 where "a = a1 @ a2" "accepts p'' a1" "accepts q a2"
      by blast
    with Cons i have "a = a1 @ a2 \<and> accepts p a1 \<and> accepts q a2"
      by (auto intro: accepts.intros)
    then show ?thesis by blast
  qed
next
  case (acc_Opt_take c x p' a)
  show ?case
  proof (cases p)
    case Nil
    with acc_Opt_take have "accepts q (x # a)" by (auto intro: accepts.intros)
    with Nil show ?thesis by (auto intro: accepts.intros)
  next
    case (Cons i p'')
    with acc_Opt_take(4) have i: "i = Opt c" and p': "p' = p'' @ q" by auto
    from acc_Opt_take(3) [OF p'] obtain a1 a2 where "a = a1 @ a2" "accepts p'' a1" "accepts q a2"
      by blast
    with acc_Opt_take(1) Cons i have "x # a = (x # a1) @ a2 \<and> accepts p (x # a1) \<and> accepts q a2"
      by (auto intro: accepts.intros)
    then show ?thesis by blast
  qed
next
  case (acc_Star_skip p' a c)
  show ?case
  proof (cases p)
    case Nil
    with acc_Star_skip have "accepts q a" by (auto intro: accepts.intros)
    with Nil show ?thesis by (auto intro: accepts.intros)
  next
    case (Cons i p'')
    with acc_Star_skip(3) have i: "i = Star c" and p': "p' = p'' @ q" by auto
    from acc_Star_skip(2) [OF p'] obtain a1 a2 where "a = a1 @ a2" "accepts p'' a1" "accepts q a2"
      by blast
    with Cons i have "a = a1 @ a2 \<and> accepts p a1 \<and> accepts q a2"
      by (auto intro: accepts.intros)
    then show ?thesis by blast
  qed
next
  case (acc_Star_take c x p' a)
  show ?case
  proof (cases p)
    case Nil
    with acc_Star_take have "accepts q (x # a)" by (auto intro: accepts.intros)
    with Nil show ?thesis by (auto intro: accepts.intros)
  next
    case (Cons i p'')
    with acc_Star_take(4) have i: "i = Star c" and p': "p' = p'' @ q" by auto
    from p' i Cons have "Star c # p' = p @ q" by simp
    from acc_Star_take(3) [OF this] obtain a1 a2 where
      "a = a1 @ a2" "accepts p a1" "accepts q a2" by blast
    with acc_Star_take(1) Cons i have "x # a = (x # a1) @ a2 \<and> accepts p (x # a1) \<and> accepts q a2"
      by (auto intro: accepts.intros)
    then show ?thesis by blast
  qed
qed

lemma mt_split:
  "mt (h @ q) t \<noteq> None \<longleftrightarrow> (\<exists>a b. t = a @ b \<and> accepts h a \<and> mt q b \<noteq> None)"
proof
  assume "mt (h @ q) t \<noteq> None"
  then obtain r where "mt (h @ q) t = Some r" by auto
  from mt_sound [OF this] obtain a' where a': "t = a' @ r" "accepts (h @ q) a'" by blast
  from accepts_append_D [OF a'(2) refl] obtain a1 a2 where
    s: "a' = a1 @ a2" "accepts h a1" "accepts q a2" by blast
  from mt_complete [OF s(3)] have "mt q (a2 @ r) \<noteq> None" .
  with a' s show "\<exists>a b. t = a @ b \<and> accepts h a \<and> mt q b \<noteq> None" by auto
next
  assume "\<exists>a b. t = a @ b \<and> accepts h a \<and> mt q b \<noteq> None"
  then obtain a b r where t: "t = a @ b" "accepts h a" "mt q b = Some r" by auto
  from mt_sound [OF t(3)] obtain a2 where a2: "b = a2 @ r" "accepts q a2" by blast
  from mt_complete [OF accepts_append_I [OF t(2) a2(2)], of r] t(1) a2(1)
  show "mt (h @ q) t \<noteq> None" by simp
qed

lemma accepts_slash_free: "accepts h a \<Longrightarrow> slash_free h \<Longrightarrow> CHR ''/'' \<notin> set a"
  by (induction rule: accepts.induct) (auto simp: slash_free_def)

lemma mt_Opt_last: "mt [Opt d] b \<noteq> None"
  by (cases b) auto

lemma mt_closing:
  "q = [] \<or> q = [Opt e] \<Longrightarrow>
   mt (Star (Neg c) # One (Lit c) # q) b \<noteq> None \<longleftrightarrow> (\<exists>x\<in>set b. lower_chr x = lower_chr c)"
proof (induction b)
  case Nil
  then show ?case by auto
next
  case (Cons x b)
  from Cons(2) have l: "mt q b \<noteq> None" using mt_Opt_last [of e b] by auto
  show ?case
  proof (cases "lower_chr x = lower_chr c")
    case True
    with l show ?thesis by simp
  next
    case False
    with Cons show ?thesis by (auto split: option.splits)
  qed
qed

lemma blocked_mt: "blocked p w \<Longrightarrow> mt p (w @ z) = None"
  by (induction p w rule: blocked.induct) (auto split: option.splits)

lemma search_marker:
  "\<forall>n<length m. blocked p (drop n m) \<Longrightarrow> search p (m @ z) = search p z"
proof (induction m)
  case Nil
  show ?case by simp
next
  case (Cons x m)
  from Cons(2) have "blocked p (drop 0 (x # m))" by blast
  then have "blocked p (x # m)" by simp
  then have "mt p ((x # m) @ z) = None" by (rule blocked_mt)
  moreover have "\<forall>n<length m. blocked p (drop n m)"
  proof (intro allI impI)
    fix n assume "n < length m"
    then have "Suc n < length (x # m)" by simp
    with Cons(2) have "blocked p (drop (Suc n) (x # m))" by blast
    then show "blocked p (drop n m)" by simp
  qed
  ultimately show ?case using Cons.IH by simp
qed

lemma search_suffix: "mt p v \<noteq> None \<Longrightarrow> search p (u @ v)"
proof (induction u)
  case Nil
  then show ?case by (cases v) simp_all
next
  case (Cons x u)
  then show ?case by simp
qed

lemma mt_suffix: "mt p s = Some r \<Longrightarrow> \<exists>d. s = d @ r"
  using mt_sound by blast

section \<open>Script Rewriter\<close>

lemma sanitize_javascript_append:
  "sanitize_javascript (xs @ ys) =
     (fst (sanitize_javascript xs) @ fst (sanitize_javascript ys),
      snd (sanitize_javascript xs) @ snd (sanitize_javascript ys))"
  by (simp add: sanitize_javascript_eq)

lemma sanitize_javascript_Cons:
  "sanitize_javascript (x # ys) =
     (on_element ''script'' sanitize_script x # fst (sanitize_javascript ys),
      entries_of ''script'' sanitize_script x @ snd (sanitize_javascript ys))"
  by (simp add: sanitize_javascript_eq)

lemma sanitize_javascript_Nil: "sanitize_javascript [] = ([], [])"
  by (simp add: sanitize_javascript_eq)

lemma rewrite_scenario_A:
  "rewrite_loop frame_busting_patterns
     ''if (window !== window.top) { top.location = location; }'' [] =
   (''// Frame busting code removed'',
    [entry (raw ''if%s*%(%s*window%s*!==?%s*window%.top%s*%)[^}]*}'')])"
  by code_simp

text \<open>
  C2.  In a document that holds a script element whose text is exactly
  \<^verbatim>\<open>if (window !== window.top) { top.location = location; }\<close>, the Script
  Rewriter makes the text of that script exactly the marker
  \<^verbatim>\<open>// Frame busting code removed\<close> and records exactly one entry for it, the
  one of the first guard signature; the elements before and after it are treated
  as they would be on their own.
\<close>

theorem scenario_A:
  "name script = ''script'' \<Longrightarrow>
   string script = Some ''if (window !== window.top) { top.location = location; }'' \<Longrightarrow>
   sanitize_javascript (before @ Some script # after) =
     (fst (sanitize_javascript before)
        @ Some (script\<lparr>string := Some ''// Frame busting code removed''\<rparr>)
        # fst (sanitize_javascript after),
      snd (sanitize_javascript before)
        @ entry (raw ''if%s*%(%s*window%s*!==?%s*window%.top%s*%)[^}]*}'')
        # snd (sanitize_javascript after))"
  by (simp add: sanitize_javascript_append sanitize_javascript_Cons sanitize_script_def
      rewrite_scenario_A)

theorem scenario_A_witness:
  "sanitize_javascript
     [Some \<lparr>name = ''script'', attrs = [],
            string = Some ''if (window !== window.top) { top.location = location; }''\<rparr>] =
   ([Some \<lparr>name = ''script'', attrs = [], string = Some ''// Frame busting code removed''\<rparr>],
    [entry (raw ''if%s*%(%s*window%s*!==?%s*window%.top%s*%)[^}]*}'')])"
  using scenario_A [of "\<lparr>name = ''script'', attrs = [],
            string = Some ''if (window !== window.top) { top.location = location; }''\<rparr>" "[]" "[]"]
  by (simp add: sanitize_javascript_Nil)

lemma rewrite_twice:
  "rewrite_loop frame_busting_patterns ''top.location=a;top.location=b;'' [] =
   (''// Frame busting code removed// Frame busting code removed'',
    [entry (raw ''top%.location%s*=%s*[^;]*;'')])"
  by code_simp







text \<open>A signature that fires in two scripts is recorded twice.\<close>

lemma two_scripts_two_entries:
  "snd (sanitize_javascript
     [Some \<lparr>name = ''script'', attrs = [], string = Some ''top.location=a;top.location=b;''\<rparr>,
      Some \<lparr>name = ''script'', attrs = [], string = Some ''top.location=a;top.location=b;''\<rparr>]) =
    [entry (raw ''top%.location%s*=%s*[^;]*;''), entry (raw ''top%.location%s*=%s*[^;]*;'')]"
  by (simp add: sanitize_javascript_Cons sanitize_javascript_Nil sanitize_script_def rewrite_twice)

lemma detect_nonempty:
  "d \<in> set patterns \<Longrightarrow> search (compile d) s \<Longrightarrow> detect_frame_busting_patterns s \<noteq> []"
  by (auto simp: detect_frame_busting_patterns_def filter_empty_conv)

lemma catalogue_prefixes:
  "list_all (\<lambda>p. p \<in> set reassignments \<or>
       list_ex (\<lambda>d. take (length (compile d)) (compile p) = compile d) patterns)
     (map fst frame_busting_patterns)"
  by code_simp

text \<open>
  C5, as the program has it.  When a rewrite signature other than the three
  assignment signatures matches somewhere in a text, the detector finds something
  in that text: each of the eight other rewrite signatures starts with a
  detection signature.
\<close>

theorem rewrite_detected:
  "p \<in> set (map fst frame_busting_patterns) \<Longrightarrow> p \<notin> set reassignments \<Longrightarrow>
   search (compile p) s \<Longrightarrow> detect_frame_busting_patterns s \<noteq> []"
proof -
  assume p: "p \<in> set (map fst frame_busting_patterns)" and n: "p \<notin> set reassignments"
    and s: "search (compile p) s"
  from catalogue_prefixes p n
  have "list_ex (\<lambda>d. take (length (compile d)) (compile p) = compile d) patterns"
    unfolding list_all_iff by blast
  then obtain d where d: "d \<in> set patterns"
      "take (length (compile d)) (compile p) = compile d"
    unfolding list_ex_iff by blast
  from search_prefix [OF d(2) s] d(1) show ?thesis by (rule detect_nonempty [rotated])
qed

lemma guard_example:
  "search (compile (raw ''if%s*%(%s*self%s*!==?%s*top%s*%)[^}]*}'')) ''if (self != top) { x }''"
  by code_simp

theorem rewrite_detected_witness:
  "detect_frame_busting_patterns ''if (self != top) { x }'' \<noteq> []"
  using rewrite_detected [of "raw ''if%s*%(%s*self%s*!==?%s*top%s*%)[^}]*}''" "''if (self != top) { x }''"]
    guard_example
  by (simp add: frame_busting_patterns_def reassignments_def raw_def)

text \<open>
  C5, as stated, holds of every rewrite signature.  The text
  \<^verbatim>\<open>top.location=x;\<close> is matched by the sixth rewrite signature and by no
  detection signature: the detection signatures for assignments ask for
  \<^verbatim>\<open>location\<close> on the right-hand side.
\<close>

theorem reassignment_not_detected:
  "search (compile (raw ''top%.location%s*=%s*[^;]*;'')) ''top.location=x;'' \<and>
   raw ''top%.location%s*=%s*[^;]*;'' \<in> set (map fst frame_busting_patterns) \<and>
   detect_frame_busting_patterns ''top.location=x;'' = []"
  by code_simp

subsection \<open>A second pass finds nothing\<close>

lemma closing_D:
  "closing p = Some (h, c) \<Longrightarrow>
   \<exists>q. p = h @ Star (Neg c) # One (Lit c) # q \<and> (q = [] \<or> (\<exists>e. q = [Opt e]))"
proof -
  assume a: "closing p = Some (h, c)"
  have r: "p = rev (rev p)" by simp
  from a show ?thesis
    unfolding closing_def
    by (subst r, subst (asm) r) (auto split: list.splits item.splits cls.splits if_splits)
qed

lemma catalogue_safe:
  "list_all (\<lambda>pr. safe (compile (fst pr)) \<and> snd pr = marker) frame_busting_patterns"
  by code_simp

lemma marker_Cons: "marker = CHR ''/'' # tl marker"
  by (simp add: marker_def)

lemma safe_D:
  assumes "safe p"
  obtains h c q where "p = h @ Star (Neg c) # One (Lit c) # q" "q = [] \<or> (\<exists>e. q = [Opt e])"
    "slash_free h" "\<forall>y\<in>set marker. lower_chr y \<noteq> lower_chr c"
    "\<forall>n<length marker. blocked p (drop n marker)"
proof -
  from assms obtain h c where cl: "closing p = Some (h, c)"
    and s: "slash_free h" "list_all (\<lambda>y. lower_chr y \<noteq> lower_chr c) marker"
      "list_all (\<lambda>n. blocked p (drop n marker)) [0..<length marker]"
    by (auto simp: safe_def split: option.splits)
  from closing_D [OF cl] obtain q where
    q: "p = h @ Star (Neg c) # One (Lit c) # q" "q = [] \<or> (\<exists>e. q = [Opt e])" by blast
  from s(2) have m: "\<forall>y\<in>set marker. lower_chr y \<noteq> lower_chr c" by (simp add: list_all_iff)
  from s(3) have b: "\<forall>n<length marker. blocked p (drop n marker)" by (simp add: list_all_iff)
  from q s(1) m b show thesis by (rule that)
qed

text \<open>
  A safe pattern matches at the start of a text exactly when its head accepts a
  piece at the start and the closing character comes somewhere behind that piece.
\<close>

lemma mt_safe_iff:
  assumes "p = h @ Star (Neg c) # One (Lit c) # q" "q = [] \<or> (\<exists>e. q = [Opt e])"
  shows "mt p t \<noteq> None \<longleftrightarrow>
    (\<exists>a b. t = a @ b \<and> accepts h a \<and> (\<exists>x\<in>set b. lower_chr x = lower_chr c))"
proof -
  from assms(2) have "\<And>b. mt (Star (Neg c) # One (Lit c) # q) b \<noteq> None
      \<longleftrightarrow> (\<exists>x\<in>set b. lower_chr x = lower_chr c)"
    using mt_closing by blast
  with mt_split [of h "Star (Neg c) # One (Lit c) # q" t] assms(1) show ?thesis by simp
qed

lemma safe_consumes:
  assumes "safe p" "mt p s = Some r"
  shows "length r < length s"
proof -
  from assms(1) obtain h c q where p: "p = h @ Star (Neg c) # One (Lit c) # q" by (rule safe_D)
  from mt_sound [OF assms(2)] obtain a where a: "s = a @ r" "accepts p a" by blast
  from accepts_append_D [OF a(2) p] obtain a1 a2 where
    s: "a = a1 @ a2" "accepts (Star (Neg c) # One (Lit c) # q) a2" by blast
  have "accepts u v \<Longrightarrow> u = Star (Neg c) # One (Lit c) # q \<Longrightarrow> v \<noteq> []" for u v
    by (induction rule: accepts.induct) (auto elim: accepts.cases)
  from this [OF s(2) refl] s(1) a(1) show ?thesis by simp
qed

lemma rw_mem: "rw P s t \<Longrightarrow> x \<in> set t \<Longrightarrow> x \<notin> set marker \<Longrightarrow> x \<in> set s"
  by (induction rule: rw.induct) auto

lemma rw_split:
  "rw P s t \<Longrightarrow> t = a @ b \<Longrightarrow> CHR ''/'' \<notin> set a \<Longrightarrow> x \<in> set b \<Longrightarrow> x \<notin> set marker \<Longrightarrow>
   \<exists>b'. s = a @ b' \<and> x \<in> set b'"
proof (induction arbitrary: a b rule: rw.induct)
  case rw_Nil
  then show ?case by simp
next
  case (rw_copy y s t)
  show ?case
  proof (cases a)
    case Nil
    with rw_copy(4) have "b = y # t" by simp
    with rw_copy(6) have "x = y \<or> x \<in> set t" by auto
    with rw_mem [OF rw_copy(2) _ rw_copy(7)] have "x \<in> set (y # s)" by auto
    with Nil show ?thesis by auto
  next
    case (Cons z a')
    with rw_copy(4) have z: "z = y" and t: "t = a' @ b" by auto
    from rw_copy(5) Cons have "CHR ''/'' \<notin> set a'" by simp
    from rw_copy(3) [OF t this rw_copy(6) rw_copy(7)] obtain b' where "s = a' @ b'" "x \<in> set b'"
      by blast
    with Cons z show ?thesis by auto
  qed
next
  case (rw_repl s t d)
  show ?case
  proof (cases a)
    case Nil
    with rw_repl(3) have "b = marker @ t" by simp
    with rw_repl(5) rw_repl(6) have "x \<in> set t" by auto
    from rw_mem [OF rw_repl(1) this rw_repl(6)] have "x \<in> set (d @ s)" by simp
    with Nil show ?thesis by auto
  next
    case (Cons z a')
    with rw_repl(3) have "z = CHR ''/''" by (subst (asm) marker_Cons) simp
    with Cons rw_repl(4) show ?thesis by simp
  qed
qed

text \<open>
  After a substitution a safe pattern matches only where it matched before: its
  match begins at a copied character, the head lies before the next marker since
  it takes no slash, and the closing character found behind it is not one of the
  marker, so it was there before.
\<close>

lemma rw_match:
  assumes "safe p" "rw P s t" "mt p t \<noteq> None"
  shows "mt p s \<noteq> None"
proof -
  from assms(1) obtain h c q where p: "p = h @ Star (Neg c) # One (Lit c) # q"
      "q = [] \<or> (\<exists>e. q = [Opt e])"
    and h: "slash_free h" and m: "\<forall>y\<in>set marker. lower_chr y \<noteq> lower_chr c"
    by (rule safe_D)
  from assms(3) mt_safe_iff [OF p, of t] obtain a b x where
    t: "t = a @ b" "accepts h a" "x \<in> set b" "lower_chr x = lower_chr c" by blast
  from accepts_slash_free [OF t(2) h] have a: "CHR ''/'' \<notin> set a" .
  from m t(4) have x: "x \<notin> set marker" by auto
  from rw_split [OF assms(2) t(1) a t(3) x] obtain b' where "s = a @ b'" "x \<in> set b'" by blast
  with t(2) t(4) mt_safe_iff [OF p, of s] show ?thesis by blast
qed

lemma rw_search:
  assumes "safe p" "rw P s t" "search p t"
  shows "\<exists>u v. s = u @ v \<and> P v \<and> mt p v \<noteq> None"
  using assms(2,3)
proof (induction rule: rw.induct)
  case rw_Nil
  then have "mt p [] \<noteq> None" by simp
  with safe_consumes [OF assms(1), of "[]"] show ?case by auto
next
  case (rw_copy x s t)
  from rw_copy(4) have "mt p (x # t) \<noteq> None \<or> search p t" by simp
  then show ?case
  proof
    assume "mt p (x # t) \<noteq> None"
    from rw_match [OF assms(1) rw.rw_copy [OF rw_copy(1) rw_copy(2)] this] rw_copy(1)
    have "x # s = [] @ (x # s) \<and> P (x # s) \<and> mt p (x # s) \<noteq> None" by simp
    then show ?thesis by blast
  next
    assume "search p t"
    from rw_copy(3) [OF this] obtain u v where "s = u @ v" "P v" "mt p v \<noteq> None" by blast
    then have "x # s = (x # u) @ v \<and> P v \<and> mt p v \<noteq> None" by simp
    then show ?thesis by blast
  qed
next
  case (rw_repl s t d)
  from assms(1) have "\<forall>n<length marker. blocked p (drop n marker)" by (rule safe_D)
  from search_marker [OF this, of t] rw_repl(3) have "search p t" by simp
  from rw_repl(2) [OF this] obtain u v where "s = u @ v" "P v" "mt p v \<noteq> None" by blast
  then have "d @ s = (d @ u) @ v \<and> P v \<and> mt p v \<noteq> None" by simp
  then show ?case by blast
qed

lemma sub_rw: "safe p \<Longrightarrow> rw (\<lambda>v. mt p v = None) s (sub p marker s)"
proof (induction "length s" arbitrary: s rule: less_induct)
  case less
  show ?case
  proof (cases "mt p s")
    case None
    show ?thesis
    proof (cases s)
      case Nil
      with None show ?thesis by (subst sub.simps) (simp add: rw.intros)
    next
      case (Cons x t)
      from less(1) [of t] Cons less(2) have "rw (\<lambda>v. mt p v = None) t (sub p marker t)" by simp
      with None Cons show ?thesis by (subst sub.simps) (simp add: rw.intros)
    qed
  next
    case (Some r)
    from safe_consumes [OF less(2) Some] have l: "length r < length s" .
    from mt_suffix [OF Some] obtain d where d: "s = d @ r" by blast
    from less(1) [OF l less(2)] have "rw (\<lambda>v. mt p v = None) (d @ r) (marker @ sub p marker r)"
      by (rule rw.rw_repl)
    with Some l d show ?thesis by (subst sub.simps) simp
  qed
qed

lemma sub_clears: "safe p \<Longrightarrow> \<not> search p (sub p marker s)"
  using rw_search [OF _ sub_rw, of p p s] by auto

lemma sub_keeps: "safe p \<Longrightarrow> safe q \<Longrightarrow> \<not> search q s \<Longrightarrow> \<not> search q (sub p marker s)"
  using rw_search [OF _ sub_rw, of q p s] search_suffix [of q] by blast

lemma rewrite_loop_clears:
  "\<forall>pr\<in>set ps. safe (compile (fst pr)) \<and> snd pr = marker \<Longrightarrow>
   \<forall>q\<in>Q. safe q \<and> \<not> search q c \<Longrightarrow>
   \<forall>q\<in>Q \<union> (\<lambda>pr. compile (fst pr)) ` set ps. \<not> search q (fst (rewrite_loop ps c mods))"
proof (induction ps arbitrary: c mods Q)
  case Nil
  then show ?case by simp
next
  case (Cons pr ps)
  obtain pattern replacement where pr: "pr = (pattern, replacement)" by (cases pr)
  with Cons(2) have s: "safe (compile pattern)" and r: "replacement = marker"
    and rest: "\<forall>pr\<in>set ps. safe (compile (fst pr)) \<and> snd pr = marker" by auto
  show ?case
  proof (cases "search (compile pattern) c")
    case True
    let ?c = "sub (compile pattern) marker c"
    have "\<forall>q\<in>insert (compile pattern) Q. safe q \<and> \<not> search q ?c"
      using Cons(3) s sub_clears [OF s, of c] sub_keeps [OF s, of _ c] by auto
    from Cons.IH [OF rest this, of "mods @ [entry pattern]"] True pr r show ?thesis by simp
  next
    case False
    with Cons(3) s have "\<forall>q\<in>insert (compile pattern) Q. safe q \<and> \<not> search q c" by auto
    from Cons.IH [OF rest this, of mods] False pr show ?thesis by simp
  qed
qed

lemma rewrite_loop_noop:
  "\<forall>pr\<in>set ps. \<not> search (compile (fst pr)) c \<Longrightarrow> rewrite_loop ps c mods = (c, mods)"
  by (induction ps arbitrary: mods) auto

lemma rewrite_loop_again:
  "rewrite_loop frame_busting_patterns c [] = (c', new) \<Longrightarrow>
   rewrite_loop frame_busting_patterns c' [] = (c', [])"
proof -
  assume a: "rewrite_loop frame_busting_patterns c [] = (c', new)"
  from catalogue_safe have
    "\<forall>pr\<in>set frame_busting_patterns. safe (compile (fst pr)) \<and> snd pr = marker"
    by (simp add: list_all_iff)
  from rewrite_loop_clears [OF this, of "{}" c "[]"] a
  have "\<forall>pr\<in>set frame_busting_patterns. \<not> search (compile (fst pr)) c'" by simp
  then show ?thesis by (rule rewrite_loop_noop)
qed

lemma sanitize_script_again:
  "\<exists>e'. fst (sanitize_script e) = Some e' \<and> name e' = name e
      \<and> sanitize_script e' = (Some e', [])"
proof (cases "string e")
  case None
  then show ?thesis by (simp add: sanitize_script_def)
next
  case (Some c)
  show ?thesis
  proof (cases "c = []")
    case True
    with Some show ?thesis by (simp add: sanitize_script_def)
  next
    case False
    obtain c' new where l: "rewrite_loop frame_busting_patterns c [] = (c', new)"
      by (cases "rewrite_loop frame_busting_patterns c []")
    note again = rewrite_loop_again [OF l]
    show ?thesis
    proof (cases "c' = c")
      case True
      with Some False l again show ?thesis by (simp add: sanitize_script_def)
    next
      case ne: False
      with Some False l again show ?thesis by (simp add: sanitize_script_def)
    qed
  qed
qed

text \<open>
  C6.  Running the Script Rewriter on a document it has already run on leaves
  every element as the first run left it, hence every script text, and records
  nothing: no rewrite signature is found in a text the first run produced.
\<close>

theorem rewriter_idempotent:
  "sanitize_javascript (fst (sanitize_javascript soup)) = (fst (sanitize_javascript soup), [])"
proof -
  have "on_element ''script'' sanitize_script (on_element ''script'' sanitize_script x)
          = on_element ''script'' sanitize_script x
      \<and> entries_of ''script'' sanitize_script (on_element ''script'' sanitize_script x) = []" for x
  proof (cases x)
    case None
    then show ?thesis by simp
  next
    case (Some e)
    from sanitize_script_again [of e] obtain e' where
      "fst (sanitize_script e) = Some e'" "name e' = name e"
      "sanitize_script e' = (Some e', [])" by blast
    with Some show ?thesis by simp
  qed
  then show ?thesis by (simp add: sanitize_javascript_eq)
qed

text \<open>
  The script of the first scenario: the first run leaves the marker as its text,
  and the run on that document changes nothing and records nothing.
\<close>

theorem rewriter_idempotent_witness:
  "sanitize_javascript
     [Some \<lparr>name = ''script'', attrs = [], string = Some ''// Frame busting code removed''\<rparr>] =
   ([Some \<lparr>name = ''script'', attrs = [], string = Some ''// Frame busting code removed''\<rparr>],
    [])"
  using rewriter_idempotent [of "[Some \<lparr>name = ''script'', attrs = [],
      string = Some ''if (window !== window.top) { top.location = location; }''\<rparr>]"]
  by (simp add: sanitize_javascript_Cons sanitize_javascript_Nil sanitize_script_def
      rewrite_scenario_A)

section \<open>Meta-Tag Normalizer\<close>




lemma lower_chr_semicolon [simp]: "lower_chr x = CHR '';'' \<longleftrightarrow> x = CHR '';''"
proof
  assume a: "lower_chr x = CHR '';''"
  define n where "n = (of_char x :: nat)"
  show "x = CHR '';''"
  proof (cases "(65 \<le> n \<and> n \<le> 90) \<or> (192 \<le> n \<and> n \<le> 222 \<and> n \<noteq> 215)")
    case True
    with a have "char_of (n + 32) = CHR '';''" by (simp add: lower_chr_def n_def Let_def)
    then have "of_char (char_of (n + 32)) = (of_char (CHR '';'') :: nat)" by simp
    with True show ?thesis by (auto simp: of_char_of)
  next
    case False
    with a show ?thesis unfolding lower_chr_def Let_def n_def by (auto split: if_splits)
  qed
next
  assume "x = CHR '';''"
  then show "lower_chr x = CHR '';''" by (simp add: lower_chr_def)
qed

lemma lower_chr_semicolon' [simp]: "lower_chr CHR '';'' = CHR '';''"
  by simp

lemma not_isspace_semicolon [simp]: "\<not> isspace CHR '';''"
  by (simp add: isspace_def)

















text \<open>A meta element whose only directive is frame-ancestors is removed.\<close>

lemma scenario_D:
  "clean_meta_tags [Some (csp_meta (''frame-ancestors 'none'' @ [CHR 0x27]))] =
     ([None], [''Removed CSP meta tag''])"
  by code_simp


text \<open>
  C4 fails on the program.  The directive is taken out in one pass, and the text
  before and the text behind a removed directive can join to a new
  \<^verbatim>\<open>frame-ancestors\<close>.  The normaliser then writes back a content that holds
  frame-ancestors, with the entry that says it was removed, and the assessor of
  the program takes the element it wrote for one that blocks embedding.
\<close>

theorem frame_ancestors_survives:
  "clean_meta_tags
     [Some (csp_meta (''frame-frame-ancestors 'none';ancestors 'none'' @ [CHR 0x27]))] =
     ([Some (csp_meta (''frame-ancestors 'none'' @ [CHR 0x27]))],
      [''Modified CSP meta tag to remove frame-ancestors'']) \<and>
   contains ''frame-ancestors''
     (lower (get (csp_meta (''frame-ancestors 'none'' @ [CHR 0x27])) ''content'' [])) \<and>
   \<not> meta_check [csp_meta (''frame-ancestors 'none'' @ [CHR 0x27])]"
  by code_simp

lemma set_item_others:
  "filter (\<lambda>p. fst p \<noteq> k) (set_item k v a) = filter (\<lambda>p. fst p \<noteq> k) a"
  by (induction a) auto

lemma set_item_keys: "k \<in> fst ` set a \<Longrightarrow> map fst (set_item k v a) = map fst a"
  by (induction a) auto

lemma get_key: "get e k [] \<noteq> [] \<Longrightarrow> k \<in> fst ` set (attrs e)"
  by (auto simp: get_def split: option.splits dest: map_of_SomeD intro: rev_image_eqI)

lemma clean_meta_cases:
  "clean_meta e = (x, new) \<Longrightarrow>
     (if lower (get e ''http-equiv'' []) = ''x-frame-options'' then x = None
      else if lower (get e ''http-equiv'' []) = ''content-security-policy''
              \<and> contains ''frame-ancestors'' (lower (get e ''content'' []))
      then (case x of
              None \<Rightarrow> True
            | Some e' \<Rightarrow> name e' = name e \<and> string e' = string e
                \<and> filter (\<lambda>p. fst p \<noteq> ''content'') (attrs e')
                    = filter (\<lambda>p. fst p \<noteq> ''content'') (attrs e)
                \<and> map fst (attrs e') = map fst (attrs e))
      else x = Some e)"
proof -
  assume a: "clean_meta e = (x, new)"
  have k: "map fst (set_item ''content'' v (attrs e)) = map fst (attrs e)"
    if "contains ''frame-ancestors'' (lower (get e ''content'' []))" for v
  proof -
    from that have "get e ''content'' [] \<noteq> []" by (auto simp: lower_def)
    then show ?thesis by (intro set_item_keys get_key)
  qed
  from a k show ?thesis
    by (auto simp: clean_meta_def Let_def set_item_others split: if_splits)
qed

text \<open>
  C9.  The normaliser keeps the length of the document and every position on its
  own.  An element that is no meta element, a meta element whose http-equiv is
  neither x-frame-options nor content-security-policy, and a
  content-security-policy element whose content does not hold frame-ancestors
  are the same afterwards.  A content-security-policy element that is kept after
  a change has its name, its text, its attribute keys in their order and every
  attribute other than content as before.
\<close>

theorem normalizer_frame:
  "i < length soup \<Longrightarrow>
   length (fst (clean_meta_tags soup)) = length soup \<and>
   (case soup ! i of
      None \<Rightarrow> fst (clean_meta_tags soup) ! i = None
    | Some e \<Rightarrow>
        if name e = ''meta'' \<and> lower (get e ''http-equiv'' []) = ''x-frame-options''
        then fst (clean_meta_tags soup) ! i = None
        else if name e = ''meta'' \<and> lower (get e ''http-equiv'' []) = ''content-security-policy''
                \<and> contains ''frame-ancestors'' (lower (get e ''content'' []))
        then (case fst (clean_meta_tags soup) ! i of
                None \<Rightarrow> True
              | Some e' \<Rightarrow> name e' = name e \<and> string e' = string e
                  \<and> filter (\<lambda>p. fst p \<noteq> ''content'') (attrs e')
                      = filter (\<lambda>p. fst p \<noteq> ''content'') (attrs e)
                  \<and> map fst (attrs e') = map fst (attrs e))
        else fst (clean_meta_tags soup) ! i = Some e)"
proof -
  assume i: "i < length soup"
  show ?thesis
  proof (cases "soup ! i")
    case None
    with i show ?thesis by (simp add: clean_meta_tags_eq)
  next
    case (Some e)
    obtain x new where c: "clean_meta e = (x, new)" by (cases "clean_meta e")
    from clean_meta_cases [OF c] i Some c show ?thesis
      by (simp add: clean_meta_tags_eq split: if_splits)
  qed
qed

theorem normalizer_frame_witness:
  "fst (clean_meta_tags
      [Some \<lparr>name = ''div'', attrs = [(''http-equiv'', ''x-frame-options'')], string = None\<rparr>,
       Some \<lparr>name = ''meta'', attrs = [(''charset'', ''utf-8'')], string = None\<rparr>]) ! 1
     = Some \<lparr>name = ''meta'', attrs = [(''charset'', ''utf-8'')], string = None\<rparr>"
  using normalizer_frame [of 1
      "[Some \<lparr>name = ''div'', attrs = [(''http-equiv'', ''x-frame-options'')], string = None\<rparr>,
        Some \<lparr>name = ''meta'', attrs = [(''charset'', ''utf-8'')], string = None\<rparr>]"]
  by (simp add: get_def lower_def)

text \<open>
  The half of C4 that holds: no meta element with the http-equiv x-frame-options
  is left.
\<close>

lemma map_of_filter_other:
  "k \<noteq> c \<Longrightarrow> map_of (filter (\<lambda>p. fst p \<noteq> c) a) k = map_of a k"
  by (induction a) auto

lemma find_all_iff:
  "i \<in> set (find_all nm soup) \<longleftrightarrow> i < length soup \<and> (\<exists>e. soup ! i = Some e \<and> name e = nm)"
  by (auto simp: find_all_def split: option.splits)

lemma clean_meta_http_equiv:
  assumes "clean_meta e = (Some e', new)"
  shows "lower (get e' ''http-equiv'' []) \<noteq> ''x-frame-options''"
proof -
  from clean_meta_cases [OF assms]
  have n: "lower (get e ''http-equiv'' []) \<noteq> ''x-frame-options''"
    and c: "e' = e \<or> filter (\<lambda>p. fst p \<noteq> ''content'') (attrs e')
                    = filter (\<lambda>p. fst p \<noteq> ''content'') (attrs e)"
    by (auto split: if_splits)
  from c have "map_of (attrs e') ''http-equiv'' = map_of (attrs e) ''http-equiv''"
  proof
    assume "e' = e"
    then show ?thesis by simp
  next
    assume f: "filter (\<lambda>p. fst p \<noteq> ''content'') (attrs e')
                    = filter (\<lambda>p. fst p \<noteq> ''content'') (attrs e)"
    have "map_of (attrs e') ''http-equiv''
        = map_of (filter (\<lambda>p. fst p \<noteq> ''content'') (attrs e')) ''http-equiv''"
      by (rule map_of_filter_other [symmetric]) simp
    also have "\<dots> = map_of (attrs e) ''http-equiv''"
      unfolding f by (rule map_of_filter_other) simp
    finally show ?thesis .
  qed
  with n show ?thesis by (simp add: get_def)
qed

lemma no_x_frame_options_left:
  assumes "e \<in> set (elements ''meta'' (fst (clean_meta_tags soup)))"
  shows "lower (get e ''http-equiv'' []) \<noteq> ''x-frame-options''"
proof -
  let ?s = "fst (clean_meta_tags soup)"
  from assms obtain i where i: "i \<in> set (find_all ''meta'' ?s)" and e: "e = the (?s ! i)"
    by (auto simp: elements_def)
  from i have l: "i < length soup" and s: "?s ! i = Some e" and nm: "name e = ''meta''"
    using e by (auto simp: find_all_iff clean_meta_tags_eq)
  from l s have o: "on_element ''meta'' clean_meta (soup ! i) = Some e"
    by (simp add: clean_meta_tags_eq)
  then obtain e0 where e0: "soup ! i = Some e0" by (cases "soup ! i") auto
  show ?thesis
  proof (cases "name e0 = ''meta''")
    case True
    with o e0 have "fst (clean_meta e0) = Some e" by simp
    then have "clean_meta e0 = (Some e, snd (clean_meta e0))" by (metis prod.collapse)
    then show ?thesis by (rule clean_meta_http_equiv)
  next
    case False
    with o e0 nm show ?thesis by simp
  qed
qed

end
